theory Spec2Isabelle
  imports Main "HOL-Library.Word"
begin

section \<open>The automaton engine of gameoflife.c\<close>

text \<open>
  The grid is \<open>GAME_WIDTH * GAME_HEIGHT = 24 * 18 = 432\<close> bytes (\<open>unsigned char\<close>), stored
  row by row: the cell at column \<open>x\<close> and row \<open>y\<close> is at index \<open>x + y * 24\<close>.  The C arrays
  have a fixed size; the model uses lists, and the theorems about a context ask that
  \<open>cells\<close> has 432 entries.  The loop counters of the source are C \<open>int\<close>s that stay within
  \<open>-1 .. 432\<close>, so they are modelled by unbounded integers.
\<close>

abbreviation (input) GAME_WIDTH :: int where
  "GAME_WIDTH \<equiv> 24"

abbreviation (input) GAME_HEIGHT :: int where
  "GAME_HEIGHT \<equiv> 18"

record GolContext =
  cells :: "8 word list"
  newCells :: "8 word list"

text \<open>
  \<open>getAtPos\<close>: the guard is evaluated left to right, so the comparisons with the unsigned
  constants \<open>24U\<close> and \<open>18U\<close> only see non-negative values; the byte read is promoted to
  \<open>int\<close>.  The function writes nothing, so the model returns the value only.
\<close>

definition getAtPos :: "GolContext \<Rightarrow> int \<Rightarrow> int \<Rightarrow> int" where
  "getAtPos ctx x y =
     (if x < 0 \<or> x \<ge> GAME_WIDTH \<or> y < 0 \<or> y \<ge> GAME_HEIGHT then 0
      else uint (cells ctx ! nat (x + y * GAME_WIDTH)))"

text \<open>The initialiser of the local variable \<open>neighbors\<close> in \<open>gol_step\<close>.\<close>

definition neighbors :: "GolContext \<Rightarrow> int \<Rightarrow> int \<Rightarrow> int" where
  "neighbors ctx x y =
     getAtPos ctx (x - 1) (y - 1)
     + getAtPos ctx x (y - 1)
     + getAtPos ctx (x + 1) (y - 1)
     + getAtPos ctx (x - 1) y
     + getAtPos ctx (x + 1) y
     + getAtPos ctx (x - 1) (y + 1)
     + getAtPos ctx x (y + 1)
     + getAtPos ctx (x + 1) (y + 1)"

text \<open>
  The body of the inner loop of \<open>gol_step\<close>: two independent \<open>if\<close>s, the first storing a
  copy of the cell (converted back to \<open>unsigned char\<close>), the second storing 1.
\<close>

definition gol_step_cell :: "GolContext \<Rightarrow> int \<Rightarrow> int \<Rightarrow> GolContext" where
  "gol_step_cell ctx x y =
     (let n = neighbors ctx x y;
          ctx1 = (if n = 2
                  then ctx\<lparr>newCells := (newCells ctx)[nat (x + y * GAME_WIDTH) := word_of_int (getAtPos ctx x y)]\<rparr>
                  else ctx);
          ctx2 = (if n = 3
                  then ctx1\<lparr>newCells := (newCells ctx1)[nat (x + y * GAME_WIDTH) := 1]\<rparr>
                  else ctx1)
      in ctx2)"

text \<open>\<open>for (y = 0; y < GAME_HEIGHT; y++)\<close>, entered with the current \<open>y\<close>.\<close>

function gol_step_y :: "GolContext \<Rightarrow> int \<Rightarrow> int \<Rightarrow> GolContext" where
  "gol_step_y ctx x y =
     (if y < GAME_HEIGHT then gol_step_y (gol_step_cell ctx x y) x (y + 1) else ctx)"
  by pat_completeness auto
termination
  by (relation "measure (\<lambda>(ctx, x, y). nat (GAME_HEIGHT - y))") auto

text \<open>\<open>for (x = 0; x < GAME_WIDTH; x++)\<close>, entered with the current \<open>x\<close>.\<close>

function gol_step_x :: "GolContext \<Rightarrow> int \<Rightarrow> GolContext" where
  "gol_step_x ctx x =
     (if x < GAME_WIDTH then gol_step_x (gol_step_y ctx x 0) (x + 1) else ctx)"
  by pat_completeness auto
termination
  by (relation "measure (\<lambda>(ctx, x). nat (GAME_WIDTH - x))") auto

text \<open>The copy loop \<open>for (i = 0; i < GAME_WIDTH * GAME_HEIGHT; i++) cells[i] = newCells[i]\<close>.\<close>

function gol_step_copy :: "GolContext \<Rightarrow> int \<Rightarrow> GolContext" where
  "gol_step_copy ctx i =
     (if i < GAME_WIDTH * GAME_HEIGHT
      then gol_step_copy (ctx\<lparr>cells := (cells ctx)[nat i := newCells ctx ! nat i]\<rparr>) (i + 1)
      else ctx)"
  by pat_completeness auto
termination
  by (relation "measure (\<lambda>(ctx, i). nat (GAME_WIDTH * GAME_HEIGHT - i))") auto

text \<open>\<open>gol_step\<close>: \<open>SDL_zeroa(ctx->newCells)\<close> fills the 432 bytes with 0, then the loops run.\<close>

definition gol_step :: "GolContext \<Rightarrow> GolContext" where
  "gol_step ctx =
     gol_step_copy (gol_step_x (ctx\<lparr>newCells := replicate (nat (GAME_WIDTH * GAME_HEIGHT)) 0\<rparr>) 0) 0"

text \<open>
  \<open>gol_initialize\<close> calls the library function \<open>SDL_rand(GAME_WIDTH * GAME_HEIGHT)\<close>, which is
  not part of this program.  Its results are a parameter of the model: \<open>rnd k\<close> is the
  value returned by call number \<open>k\<close> since the program started, and the number of calls made
  so far is threaded through next to the context.  The library promises
  \<open>0 \<le> rnd k < 432\<close>; the theorems that need the promise assume it.  The loop bound
  \<open>GAME_WIDTH * GAME_HEIGHT / 2\<close> is unsigned integer division.
\<close>

function gol_initialize_loop ::
  "(nat \<Rightarrow> int) \<Rightarrow> GolContext \<times> nat \<Rightarrow> int \<Rightarrow> GolContext \<times> nat" where
  "gol_initialize_loop rnd (ctx, c) i =
     (if i < GAME_WIDTH * GAME_HEIGHT div 2
      then (let n = rnd c
            in gol_initialize_loop rnd (ctx\<lparr>cells := (cells ctx)[nat n := 1]\<rparr>, Suc c) (i + 1))
      else (ctx, c))"
  by pat_completeness auto
termination
  by (relation "measure (\<lambda>(rnd, s, i). nat (GAME_WIDTH * GAME_HEIGHT div 2 - i))") auto

definition gol_initialize :: "(nat \<Rightarrow> int) \<Rightarrow> GolContext \<times> nat \<Rightarrow> GolContext \<times> nat" where
  "gol_initialize rnd s =
     (case s of (ctx, c) \<Rightarrow>
        gol_initialize_loop rnd (ctx\<lparr>cells := replicate (nat (GAME_WIDTH * GAME_HEIGHT)) 0\<rparr>, c) 0)"

section \<open>The frame driver\<close>

abbreviation (input) STEP_RATE_IN_MILLISECONDS :: "64 word" where
  "STEP_RATE_IN_MILLISECONDS \<equiv> 250"

abbreviation (input) BLOCK_SIZE_IN_PIXELS :: int where
  "BLOCK_SIZE_IN_PIXELS \<equiv> 24"

abbreviation (input) SDL_ALPHA_OPAQUE :: nat where
  "SDL_ALPHA_OPAQUE \<equiv> 255"

text \<open>
  \<open>AppState\<close>: the two handles are opaque numbers; \<open>last_step\<close> is a \<open>Uint64\<close>, so its
  arithmetic wraps modulo \<open>2 ^ 64\<close>.
\<close>

record AppState =
  window :: nat
  renderer :: nat
  gol_ctx :: GolContext
  last_step :: "64 word"

datatype SDL_AppResult = SDL_APP_CONTINUE | SDL_APP_SUCCESS | SDL_APP_FAILURE

text \<open>
  \<open>SDL_FRect\<close> has four \<open>float\<close> fields.  The program only stores the integers \<open>23\<close> and
  \<open>24 * k\<close> with \<open>k < 24\<close> in them, which \<open>float\<close> holds exactly, so a field is modelled
  by an integer; \<open>None\<close> is a field of the automatic variable \<open>r\<close> that has not been written
  yet.
\<close>

record SDL_FRect =
  rect_x :: "int option"
  rect_y :: "int option"
  rect_w :: "int option"
  rect_h :: "int option"

text \<open>The calls made on \<open>as->renderer\<close>, in the order they are made.\<close>

datatype render_call =
    SDL_SetRenderDrawColor nat nat nat nat
  | SDL_RenderClear
  | SDL_RenderFillRect SDL_FRect
  | SDL_RenderPresent

text \<open>\<open>set_rect_xy_\<close> of the source (a name cannot end with an underscore here).\<close>

definition set_rect_xy :: "SDL_FRect \<Rightarrow> int \<Rightarrow> int \<Rightarrow> SDL_FRect" where
  "set_rect_xy r x y =
     r\<lparr>rect_x := Some (x * BLOCK_SIZE_IN_PIXELS), rect_y := Some (y * BLOCK_SIZE_IN_PIXELS)\<rparr>"

text \<open>
  The catch-up loop \<open>while ((now - as->last_step) >= STEP_RATE_IN_MILLISECONDS)\<close> of
  \<open>SDL_AppIterate\<close>.  The subtraction is unsigned; every round lowers \<open>now - last_step\<close> by
  250, so the loop ends from every state.
\<close>

function SDL_AppIterate_while :: "64 word \<Rightarrow> AppState \<Rightarrow> AppState" where
  "SDL_AppIterate_while now as =
     (if now - last_step as \<ge> STEP_RATE_IN_MILLISECONDS
      then SDL_AppIterate_while now
             (as\<lparr>gol_ctx := gol_step (gol_ctx as),
                 last_step := last_step as + STEP_RATE_IN_MILLISECONDS\<rparr>)
      else as)"
  by pat_completeness auto
termination
proof (relation "measure (\<lambda>(now, as). unat (now - last_step as))")
  show "wf (measure (\<lambda>(now, as). unat (now - last_step as)))" by simp
next
  fix now :: "64 word" and as :: AppState
  assume a: "STEP_RATE_IN_MILLISECONDS \<le> now - last_step as"
  have "now - (last_step as + 250) = (now - last_step as) - 250" by simp
  then have "unat (now - (last_step as + 250)) = unat ((now - last_step as) - 250)"
    by (simp only:)
  also have "\<dots> = unat (now - last_step as) - unat (250 :: 64 word)"
    using a by (rule unat_sub)
  finally have d: "unat (now - (last_step as + 250)) = unat (now - last_step as) - 250"
    by simp
  have "unat (250 :: 64 word) \<le> unat (now - last_step as)"
    using a by (simp only: word_le_nat_alt)
  then have "250 \<le> unat (now - last_step as)" by simp
  with d show "((now, as\<lparr>gol_ctx := gol_step (gol_ctx as), last_step := last_step as + 250\<rparr>), (now, as))
        \<in> measure (\<lambda>(now, as). unat (now - last_step as))"
    by simp
qed

text \<open>
  The drawing loops over \<open>i\<close> and \<open>j\<close>.  The state is the rectangle \<open>r\<close> and the calls made
  so far.
\<close>

function SDL_AppIterate_j ::
  "GolContext \<Rightarrow> int \<Rightarrow> int \<Rightarrow> SDL_FRect \<times> render_call list \<Rightarrow> SDL_FRect \<times> render_call list" where
  "SDL_AppIterate_j ctx i j (r, out) =
     (if j < GAME_HEIGHT
      then SDL_AppIterate_j ctx i (j + 1)
             (if cells ctx ! nat (i + j * GAME_WIDTH) \<noteq> 0
              then (let r' = set_rect_xy r i j in (r', out @ [SDL_RenderFillRect r']))
              else (r, out))
      else (r, out))"
  by pat_completeness auto
termination
  by (relation "measure (\<lambda>(ctx, i, j, s). nat (GAME_HEIGHT - j))") auto

function SDL_AppIterate_i ::
  "GolContext \<Rightarrow> int \<Rightarrow> SDL_FRect \<times> render_call list \<Rightarrow> SDL_FRect \<times> render_call list" where
  "SDL_AppIterate_i ctx i s =
     (if i < GAME_WIDTH then SDL_AppIterate_i ctx (i + 1) (SDL_AppIterate_j ctx i 0 s) else s)"
  by pat_completeness auto
termination
  by (relation "measure (\<lambda>(ctx, i, s). nat (GAME_WIDTH - i))") auto

text \<open>
  \<open>SDL_AppIterate\<close>: \<open>now\<close> is the result of \<open>SDL_GetTicks()\<close>.  The result is the new state,
  the calls made on the renderer, and the return value.  After the two loops the source
  calls \<open>SDL_RenderFillRect(as->renderer, &r)\<close> once more (line 130), then presents.
\<close>

definition SDL_AppIterate ::
  "64 word \<Rightarrow> AppState \<Rightarrow> AppState \<times> render_call list \<times> SDL_AppResult" where
  "SDL_AppIterate now as =
     (let as1 = SDL_AppIterate_while now as;
          ctx = gol_ctx as1;
          r = \<lparr>rect_x = None, rect_y = None,
               rect_w = Some (BLOCK_SIZE_IN_PIXELS - 1), rect_h = Some (BLOCK_SIZE_IN_PIXELS - 1)\<rparr>;
          out = [SDL_SetRenderDrawColor 96 96 96 SDL_ALPHA_OPAQUE,
                 SDL_RenderClear,
                 SDL_SetRenderDrawColor 255 255 0 SDL_ALPHA_OPAQUE];
          (r1, out1) = SDL_AppIterate_i ctx 0 (r, out)
      in (as1, out1 @ [SDL_RenderFillRect r1, SDL_RenderPresent], SDL_APP_CONTINUE))"

section \<open>Input events\<close>

text \<open>
  Of the scancodes and event types of the library, the program tells apart the ones below;
  every other one takes the \<open>default\<close> branch and is kept with its number.
\<close>

datatype SDL_Scancode =
    SDL_SCANCODE_ESCAPE
  | SDL_SCANCODE_Q
  | SDL_SCANCODE_R
  | SDL_SCANCODE_OTHER nat

datatype SDL_Event =
    SDL_EVENT_QUIT
  | SDL_EVENT_KEY_DOWN SDL_Scancode
  | SDL_EVENT_OTHER nat

text \<open>\<open>handle_key_event_\<close> of the source.\<close>

fun handle_key_event ::
  "(nat \<Rightarrow> int) \<Rightarrow> GolContext \<times> nat \<Rightarrow> SDL_Scancode \<Rightarrow> (GolContext \<times> nat) \<times> SDL_AppResult" where
  "handle_key_event rnd s SDL_SCANCODE_ESCAPE = (s, SDL_APP_SUCCESS)"
| "handle_key_event rnd s SDL_SCANCODE_Q = (s, SDL_APP_SUCCESS)"
| "handle_key_event rnd s SDL_SCANCODE_R = (gol_initialize rnd s, SDL_APP_CONTINUE)"
| "handle_key_event rnd s (SDL_SCANCODE_OTHER k) = (s, SDL_APP_CONTINUE)"

fun SDL_AppEvent ::
  "(nat \<Rightarrow> int) \<Rightarrow> AppState \<times> nat \<Rightarrow> SDL_Event \<Rightarrow> (AppState \<times> nat) \<times> SDL_AppResult" where
  "SDL_AppEvent rnd (as, c) SDL_EVENT_QUIT = ((as, c), SDL_APP_SUCCESS)"
| "SDL_AppEvent rnd (as, c) (SDL_EVENT_KEY_DOWN scancode) =
     (case handle_key_event rnd (gol_ctx as, c) scancode of
        ((ctx', c'), res) \<Rightarrow> ((as\<lparr>gol_ctx := ctx'\<rparr>, c'), res))"
| "SDL_AppEvent rnd (as, c) (SDL_EVENT_OTHER t) = ((as, c), SDL_APP_CONTINUE)"

section \<open>Start-up\<close>

text \<open>
  \<open>SDL_AppInit\<close>.  The results of the library calls it makes are collected in a record: whether
  \<open>SDL_SetAppMetadata\<close>, the \<open>i\<close>-th \<open>SDL_SetAppMetadataProperty\<close>, \<open>SDL_Init\<close> and
  \<open>SDL_calloc\<close> succeed, the handles \<open>SDL_CreateWindow\<close> and \<open>SDL_CreateRenderer\<close> return
  (0 is \<open>NULL\<close>), and the value of \<open>SDL_GetTicks()\<close>.  \<open>SDL_calloc\<close> returns zeroed memory.
  The state is \<open>None\<close> as long as \<open>*appstate\<close> has not been assigned.  The queries whose
  results are only printed are left out.
\<close>

record InitEnv =
  set_metadata_ok :: bool
  set_property_ok :: "nat \<Rightarrow> bool"
  sdl_init_ok :: bool
  calloc_ok :: bool
  created_window :: nat
  created_renderer :: nat
  ticks :: "64 word"

text \<open>The loop over the 4 entries of \<open>extended_metadata\<close>; \<open>False\<close> is the early return.\<close>

function SDL_AppInit_properties :: "(nat \<Rightarrow> bool) \<Rightarrow> nat \<Rightarrow> bool" where
  "SDL_AppInit_properties ok i =
     (if i < 4 then (if \<not> ok i then False else SDL_AppInit_properties ok (i + 1)) else True)"
  by pat_completeness auto
termination
  by (relation "measure (\<lambda>(ok, i). 4 - i)") auto

definition SDL_AppInit ::
  "(nat \<Rightarrow> int) \<Rightarrow> InitEnv \<Rightarrow> nat \<Rightarrow> (AppState option \<times> nat) \<times> SDL_AppResult" where
  "SDL_AppInit rnd env c =
     (if \<not> set_metadata_ok env then ((None, c), SDL_APP_FAILURE)
      else if \<not> SDL_AppInit_properties (set_property_ok env) 0 then ((None, c), SDL_APP_FAILURE)
      else if \<not> sdl_init_ok env then ((None, c), SDL_APP_FAILURE)
      else if \<not> calloc_ok env then ((None, c), SDL_APP_FAILURE)
      else
        (let as0 = \<lparr>window = 0, renderer = 0,
                    gol_ctx = \<lparr>cells = replicate (nat (GAME_WIDTH * GAME_HEIGHT)) 0,
                               newCells = replicate (nat (GAME_WIDTH * GAME_HEIGHT)) 0\<rparr>,
                    last_step = 0\<rparr>;
             as1 = as0\<lparr>window := created_window env\<rparr>
         in if window as1 = 0 then ((Some as1, c), SDL_APP_FAILURE)
            else
              (let as2 = as1\<lparr>renderer := created_renderer env\<rparr>
               in if renderer as2 = 0 then ((Some as2, c), SDL_APP_FAILURE)
                  else
                    (case gol_initialize rnd (gol_ctx as2, c) of
                       (ctx, c') \<Rightarrow>
                         ((Some (as2\<lparr>gol_ctx := ctx, last_step := ticks env\<rparr>), c'),
                          SDL_APP_CONTINUE)))))"

declare gol_step_y.simps [simp del]
declare gol_step_x.simps [simp del]
declare gol_step_copy.simps [simp del]
declare gol_initialize_loop.simps [simp del]
declare SDL_AppIterate_while.simps [simp del]
declare SDL_AppIterate_j.simps [simp del]
declare SDL_AppIterate_i.simps [simp del]
declare SDL_AppInit_properties.simps [simp del]

section \<open>The vocabulary of the specification\<close>

text \<open>A cell is \<open>Dead\<close> (0) or \<open>Alive\<close> (1).\<close>

abbreviation (input) Dead :: "8 word" where
  "Dead \<equiv> 0"

abbreviation (input) Alive :: "8 word" where
  "Alive \<equiv> 1"

text \<open>\<open>(x, y)\<close> lies inside \<open>[0, width) \<times> [0, height)\<close>.\<close>

definition inside :: "int \<Rightarrow> int \<Rightarrow> bool" where
  "inside x y = (0 \<le> x \<and> x < 24 \<and> 0 \<le> y \<and> y < 18)"

text \<open>Every cell of the grid is \<open>Dead\<close> or \<open>Alive\<close>.\<close>

definition binary :: "8 word list \<Rightarrow> bool" where
  "binary cs = (\<forall>c \<in> set cs. c = Dead \<or> c = Alive)"

text \<open>The offsets of the 8 horizontally, vertically and diagonally adjacent positions.\<close>

definition around :: "(int \<times> int) list" where
  "around = [(-1, -1), (0, -1), (1, -1), (-1, 0), (1, 0), (-1, 1), (0, 1), (1, 1)]"

text \<open>A position holds a live cell: it is on the grid and its cell is \<open>Alive\<close>.\<close>

definition is_alive :: "8 word list \<Rightarrow> int \<Rightarrow> int \<Rightarrow> bool" where
  "is_alive cs x y = (inside x y \<and> cs ! nat (x + y * 24) = Alive)"

text \<open>The number of live neighbours of \<open>(x, y)\<close>; positions off the grid count as dead.\<close>

definition live_neighbours :: "8 word list \<Rightarrow> int \<Rightarrow> int \<Rightarrow> nat" where
  "live_neighbours cs x y = length (filter (\<lambda>(dx, dy). is_alive cs (x + dx) (y + dy)) around)"

text \<open>
  The rule of Life as the specification words it: whether a cell is alive in the next
  generation, from whether it is alive now and the number of its live neighbours.
\<close>

definition life_rule :: "bool \<Rightarrow> nat \<Rightarrow> bool" where
  "life_rule alive n = (if alive then n = 2 \<or> n = 3 else n = 3)"

text \<open>The number of \<open>Alive\<close> cells of a grid.\<close>

definition alive_count :: "8 word list \<Rightarrow> nat" where
  "alive_count cs = length (filter (\<lambda>c. c = Alive) cs)"

text \<open>The values of the 216 draws that \<open>gol_initialize\<close> makes when \<open>c\<close> draws were made before.\<close>

definition draws :: "(nat \<Rightarrow> int) \<Rightarrow> nat \<Rightarrow> int list" where
  "draws rnd c = map rnd [c..<c + 216]"

text \<open>A sequence of frame callbacks, one for each clock value of the list.\<close>

fun frames :: "64 word list \<Rightarrow> AppState \<Rightarrow> AppState" where
  "frames [] as = as"
| "frames (now # nows) as = frames nows (fst (SDL_AppIterate now as))"

text \<open>The rectangles of the fill calls among the calls of a frame.\<close>

fun fill_rects :: "render_call list \<Rightarrow> SDL_FRect list" where
  "fill_rects [] = []"
| "fill_rects (SDL_RenderFillRect r # cs) = r # fill_rects cs"
| "fill_rects (c # cs) = fill_rects cs"

text \<open>The square of side \<open>blockSize - 1\<close> at pixel origin \<open>(i * blockSize, j * blockSize)\<close>.\<close>

definition cell_rect :: "int \<Rightarrow> int \<Rightarrow> SDL_FRect" where
  "cell_rect i j =
     \<lparr>rect_x = Some (i * BLOCK_SIZE_IN_PIXELS), rect_y = Some (j * BLOCK_SIZE_IN_PIXELS),
      rect_w = Some (BLOCK_SIZE_IN_PIXELS - 1), rect_h = Some (BLOCK_SIZE_IN_PIXELS - 1)\<rparr>"

text \<open>The grid whose \<open>Alive\<close> cells are the given positions, all other cells \<open>Dead\<close>.\<close>

definition grid_of :: "(int \<times> int) list \<Rightarrow> 8 word list" where
  "grid_of alive =
     map (\<lambda>k. if (int (k mod 24), int (k div 24)) \<in> set alive then Alive else Dead) [0..<432]"

section \<open>What the loops compute\<close>

text \<open>
  Functions on the cell list that the loops of \<open>gol_step\<close> and of the drawing code are
  proved equal to.  \<open>stored cs x y old\<close> is the byte at \<open>(x, y)\<close> of \<open>newCells\<close> after the loop
  body ran there, \<open>old\<close> being the byte before.
\<close>

definition cell_at :: "8 word list \<Rightarrow> int \<Rightarrow> int \<Rightarrow> int" where
  "cell_at cs x y =
     (if 0 \<le> x \<and> x < 24 \<and> 0 \<le> y \<and> y < 18 then uint (cs ! nat (x + y * 24)) else 0)"

definition count_around :: "8 word list \<Rightarrow> int \<Rightarrow> int \<Rightarrow> int" where
  "count_around cs x y = (\<Sum>(dx, dy) \<leftarrow> around. cell_at cs (x + dx) (y + dy))"

definition stored :: "8 word list \<Rightarrow> int \<Rightarrow> int \<Rightarrow> 8 word \<Rightarrow> 8 word" where
  "stored cs x y old =
     (if count_around cs x y = 3 then 1
      else if count_around cs x y = 2 then word_of_int (cell_at cs x y)
      else old)"

definition next_cell :: "8 word list \<Rightarrow> int \<Rightarrow> int \<Rightarrow> 8 word" where
  "next_cell cs x y = stored cs x y 0"

definition next_gen :: "8 word list \<Rightarrow> 8 word list" where
  "next_gen cs = map (\<lambda>k. next_cell cs (int (k mod 24)) (int (k div 24))) [0..<432]"

text \<open>
  The drawing loops visit the positions column by column (\<open>scan_order\<close>) and draw at the
  ones whose byte is not 0 (\<open>lit\<close>); \<open>emit\<close> is their effect on the rectangle and the calls.
\<close>

definition lit :: "GolContext \<Rightarrow> int \<times> int \<Rightarrow> bool" where
  "lit ctx p = (cells ctx ! nat (fst p + snd p * 24) \<noteq> 0)"

definition scan_order :: "(int \<times> int) list" where
  "scan_order = List.product [0..23] [0..17]"

definition emit ::
  "SDL_FRect \<times> render_call list \<Rightarrow> (int \<times> int) list \<Rightarrow> SDL_FRect \<times> render_call list" where
  "emit s ps =
     ((if ps = [] then fst s else set_rect_xy (fst s) (fst (last ps)) (snd (last ps))),
      snd s @ map (\<lambda>p. SDL_RenderFillRect (set_rect_xy (fst s) (fst p) (snd p))) ps)"

section \<open>Concrete states\<close>

text \<open>The vertical blinker; a grid with live cells at both ends of rows 0 and 1.\<close>

definition ctx_blinker :: GolContext where
  "ctx_blinker = \<lparr>cells = grid_of [(1, 0), (1, 1), (1, 2)], newCells = replicate 432 0\<rparr>"

definition ctx_edge :: GolContext where
  "ctx_edge = \<lparr>cells = grid_of [(0, 1), (22, 0), (23, 1)], newCells = replicate 432 0\<rparr>"

definition ctx_any :: GolContext where
  "ctx_any = \<lparr>cells = replicate 432 Alive, newCells = replicate 432 Alive\<rparr>"

text \<open>A source of draws that always returns 7.\<close>

definition rnd_same :: "nat \<Rightarrow> int" where
  "rnd_same j = 7"

definition as_blinker :: AppState where
  "as_blinker = \<lparr>window = 1, renderer = 2, gol_ctx = ctx_blinker, last_step = 1000\<rparr>"

text \<open>A start-up in which every library call succeeds, at clock value 1000.\<close>

definition env_ok :: InitEnv where
  "env_ok = \<lparr>set_metadata_ok = True, set_property_ok = (\<lambda>i. True), sdl_init_ok = True,
              calloc_ok = True, created_window = 1, created_renderer = 2, ticks = 1000\<rparr>"

definition as_started :: AppState where
  "as_started =
     \<lparr>window = 1, renderer = 2,
      gol_ctx = fst (gol_initialize rnd_same
                       (\<lparr>cells = replicate 432 Dead, newCells = replicate 432 Dead\<rparr>, 0)),
      last_step = 1000\<rparr>"

definition as_dead :: AppState where
  "as_dead = \<lparr>window = 1, renderer = 2,
               gol_ctx = \<lparr>cells = replicate 432 Dead, newCells = replicate 432 Dead\<rparr>,
               last_step = 1000\<rparr>"

section \<open>The loops of gol_step\<close>

text \<open>
  Each loop is characterised by what it leaves in the two arrays; the characterisations are
  proved by induction along the recursion of the loop.
\<close>

lemma getAtPos_cell_at: "getAtPos ctx x y = cell_at (cells ctx) x y"
  by (auto simp: getAtPos_def cell_at_def)

lemma neighbors_count_around: "neighbors ctx x y = count_around (cells ctx) x y"
  by (simp add: neighbors_def count_around_def around_def getAtPos_cell_at)

lemma gol_step_cell_eq:
  "gol_step_cell ctx x y =
     ctx\<lparr>newCells := (newCells ctx)[nat (x + y * 24) :=
            stored (cells ctx) x y (newCells ctx ! nat (x + y * 24))]\<rparr>"
  by (simp add: gol_step_cell_def Let_def neighbors_count_around getAtPos_cell_at stored_def)

lemma index_split:
  fixes x y :: int and k :: nat
  assumes "0 \<le> x" "x < 24" "0 \<le> y"
  shows "k = nat (x + y * 24) \<longleftrightarrow> int (k mod 24) = x \<and> int (k div 24) = y"
  using assms by (auto simp: nat_eq_iff zmod_int zdiv_int)

lemma inside_index: "inside x y \<Longrightarrow> nat (x + y * 24) < 432"
  by (auto simp: inside_def)

lemma index_inj:
  assumes "inside x y" "inside x' y'" "nat (x + y * 24) = nat (x' + y' * 24)"
  shows "x = x' \<and> y = y'"
proof -
  let ?k = "nat (x + y * 24)"
  have "int (?k mod 24) = x \<and> int (?k div 24) = y"
    using index_split[of x y ?k] assms(1) by (simp add: inside_def)
  moreover have "int (?k mod 24) = x' \<and> int (?k div 24) = y'"
    using index_split[of x' y' ?k] assms(2,3) by (simp add: inside_def)
  ultimately show ?thesis by simp
qed

lemma gol_step_y_cells: "cells (gol_step_y ctx x y) = cells ctx"
proof (induction ctx x y rule: gol_step_y.induct)
  case (1 ctx x y)
  then show ?case
    by (subst gol_step_y.simps) (simp add: gol_step_cell_eq)
qed

lemma gol_step_y_length: "length (newCells (gol_step_y ctx x y)) = length (newCells ctx)"
proof (induction ctx x y rule: gol_step_y.induct)
  case (1 ctx x y)
  then show ?case
    by (subst gol_step_y.simps) (simp add: gol_step_cell_eq)
qed

lemma gol_step_y_nth:
  assumes "0 \<le> x" "x < 24" "0 \<le> y" "k < length (newCells ctx)"
  shows "newCells (gol_step_y ctx x y) ! k =
           (if int (k mod 24) = x \<and> y \<le> int (k div 24) \<and> int (k div 24) < 18
            then stored (cells ctx) x (int (k div 24)) (newCells ctx ! k)
            else newCells ctx ! k)"
  using assms
proof (induction ctx x y rule: gol_step_y.induct)
  case (1 ctx x y)
  show ?case
  proof (cases "y < 18")
    case False
    then show ?thesis by (subst gol_step_y.simps) auto
  next
    case True
    let ?c = "gol_step_cell ctx x y"
    have len: "k < length (newCells ?c)" using "1.prems" by (simp add: gol_step_cell_eq)
    have ih: "newCells (gol_step_y ?c x (y + 1)) ! k =
           (if int (k mod 24) = x \<and> y + 1 \<le> int (k div 24) \<and> int (k div 24) < 18
            then stored (cells ?c) x (int (k div 24)) (newCells ?c ! k)
            else newCells ?c ! k)"
      using "1.IH"[OF True "1.prems"(1,2) _ len] "1.prems"(3) by simp
    have unf: "gol_step_y ctx x y = gol_step_y ?c x (y + 1)"
      using True by (subst gol_step_y.simps) simp
    have cs: "cells ?c = cells ctx" by (simp add: gol_step_cell_eq)
    have nw: "newCells ?c ! k =
        (if k = nat (x + y * 24) then stored (cells ctx) x y (newCells ctx ! k) else newCells ctx ! k)"
      using "1.prems"(4) by (simp add: gol_step_cell_eq nth_list_update)
    have sp: "k = nat (x + y * 24) \<longleftrightarrow> int (k mod 24) = x \<and> int (k div 24) = y"
      using index_split[OF "1.prems"(1,2,3)] .
    show ?thesis
      unfolding unf ih cs nw sp using True by auto
  qed
qed

lemma gol_step_x_cells: "cells (gol_step_x ctx x) = cells ctx"
proof (induction ctx x rule: gol_step_x.induct)
  case (1 ctx x)
  then show ?case
    by (subst gol_step_x.simps) (simp add: gol_step_y_cells)
qed

lemma gol_step_x_length: "length (newCells (gol_step_x ctx x)) = length (newCells ctx)"
proof (induction ctx x rule: gol_step_x.induct)
  case (1 ctx x)
  then show ?case
    by (subst gol_step_x.simps) (simp add: gol_step_y_length)
qed

lemma gol_step_x_nth:
  assumes "0 \<le> x" "k < length (newCells ctx)" "length (newCells ctx) = 432"
  shows "newCells (gol_step_x ctx x) ! k =
           (if x \<le> int (k mod 24)
            then stored (cells ctx) (int (k mod 24)) (int (k div 24)) (newCells ctx ! k)
            else newCells ctx ! k)"
  using assms
proof (induction ctx x rule: gol_step_x.induct)
  case (1 ctx x)
  show ?case
  proof (cases "x < 24")
    case False
    then show ?thesis by (subst gol_step_x.simps) auto
  next
    case True
    let ?c = "gol_step_y ctx x 0"
    have len: "k < length (newCells ?c)" "length (newCells ?c) = 432"
      using "1.prems" by (simp_all add: gol_step_y_length)
    have ih: "newCells (gol_step_x ?c (x + 1)) ! k =
           (if x + 1 \<le> int (k mod 24)
            then stored (cells ?c) (int (k mod 24)) (int (k div 24)) (newCells ?c ! k)
            else newCells ?c ! k)"
      using "1.IH"[OF True _ len] "1.prems"(1) by simp
    have unf: "gol_step_x ctx x = gol_step_x ?c (x + 1)"
      using True by (subst gol_step_x.simps) simp
    have cs: "cells ?c = cells ctx" by (simp add: gol_step_y_cells)
    have row: "int (k div 24) < 18" using "1.prems"(2,3) by simp
    have nw: "newCells ?c ! k =
        (if int (k mod 24) = x
         then stored (cells ctx) x (int (k div 24)) (newCells ctx ! k) else newCells ctx ! k)"
      using gol_step_y_nth[OF "1.prems"(1) True _ "1.prems"(2), of 0] row by simp
    show ?thesis
    proof (cases "int (k mod 24) = x")
      case True
      then show ?thesis unfolding unf ih cs nw by simp
    next
      case False
      then have "x + 1 \<le> int (k mod 24) \<longleftrightarrow> x \<le> int (k mod 24)" by auto
      with False show ?thesis unfolding unf ih cs nw by simp
    qed
  qed
qed

lemma gol_step_copy_newCells: "newCells (gol_step_copy ctx i) = newCells ctx"
proof (induction ctx i rule: gol_step_copy.induct)
  case (1 ctx i)
  then show ?case
    by (subst gol_step_copy.simps) simp
qed

lemma gol_step_copy_length: "length (cells (gol_step_copy ctx i)) = length (cells ctx)"
proof (induction ctx i rule: gol_step_copy.induct)
  case (1 ctx i)
  then show ?case
    by (subst gol_step_copy.simps) simp
qed

lemma gol_step_copy_nth:
  assumes "0 \<le> i" "k < length (cells ctx)" "length (cells ctx) = 432"
  shows "cells (gol_step_copy ctx i) ! k =
           (if i \<le> int k then newCells ctx ! k else cells ctx ! k)"
  using assms
proof (induction ctx i rule: gol_step_copy.induct)
  case (1 ctx i)
  show ?case
  proof (cases "i < 432")
    case False
    then show ?thesis using "1.prems" by (subst gol_step_copy.simps) auto
  next
    case True
    let ?c = "ctx\<lparr>cells := (cells ctx)[nat i := newCells ctx ! nat i]\<rparr>"
    have unf: "gol_step_copy ctx i = gol_step_copy ?c (i + 1)"
      using True by (subst gol_step_copy.simps) simp
    have ih: "cells (gol_step_copy ?c (i + 1)) ! k =
           (if i + 1 \<le> int k then newCells ?c ! k else cells ?c ! k)"
      using "1.IH" True "1.prems" by simp
    show ?thesis
      unfolding unf ih using "1.prems" by (auto simp: nth_list_update)
  qed
qed

lemma gol_step_newCells: "newCells (gol_step ctx) = next_gen (cells ctx)"
proof (rule nth_equalityI)
  show "length (newCells (gol_step ctx)) = length (next_gen (cells ctx))"
    by (simp add: gol_step_def gol_step_copy_newCells gol_step_x_length next_gen_def)
next
  fix k assume "k < length (newCells (gol_step ctx))"
  then have k: "k < 432"
    by (simp add: gol_step_def gol_step_copy_newCells gol_step_x_length)
  then show "newCells (gol_step ctx) ! k = next_gen (cells ctx) ! k"
    by (simp add: gol_step_def gol_step_copy_newCells gol_step_x_nth next_gen_def next_cell_def)
qed

lemma gol_step_cells:
  assumes "length (cells ctx) = 432"
  shows "cells (gol_step ctx) = next_gen (cells ctx)"
proof (rule nth_equalityI)
  show "length (cells (gol_step ctx)) = length (next_gen (cells ctx))"
    using assms by (simp add: gol_step_def gol_step_copy_length gol_step_x_cells next_gen_def)
next
  fix k assume "k < length (cells (gol_step ctx))"
  then have k: "k < 432"
    using assms by (simp add: gol_step_def gol_step_copy_length gol_step_x_cells)
  let ?c = "gol_step_x (ctx\<lparr>newCells := replicate 432 0\<rparr>) 0"
  have "cells (gol_step ctx) ! k = newCells ?c ! k"
    using k assms by (simp add: gol_step_def gol_step_copy_nth gol_step_x_cells)
  also have "\<dots> = newCells (gol_step ctx) ! k"
    by (simp add: gol_step_def gol_step_copy_newCells)
  finally show "cells (gol_step ctx) ! k = next_gen (cells ctx) ! k"
    by (simp add: gol_step_newCells)
qed

lemma next_gen_nth:
  assumes "inside x y"
  shows "next_gen cs ! nat (x + y * 24) = next_cell cs x y"
proof -
  have k: "nat (x + y * 24) < 432" using assms by (rule inside_index)
  have "int (nat (x + y * 24) mod 24) = x" "int (nat (x + y * 24) div 24) = y"
    using assms by (auto simp: inside_def zmod_int zdiv_int)
  then show ?thesis using k by (simp add: next_gen_def)
qed

section \<open>Grids of Dead and Alive cells\<close>

lemma cell_at_binary:
  assumes "length cs = 432" "binary cs"
  shows "cell_at cs x y = (if is_alive cs x y then 1 else 0)"
proof (cases "inside x y")
  case False
  then show ?thesis by (auto simp: cell_at_def is_alive_def inside_def)
next
  case True
  then have "cs ! nat (x + y * 24) \<in> set cs"
    using assms(1) inside_index by simp
  then have "cs ! nat (x + y * 24) = 0 \<or> cs ! nat (x + y * 24) = 1"
    using assms(2) by (auto simp: binary_def)
  then show ?thesis using True by (auto simp: cell_at_def is_alive_def inside_def)
qed

lemma sum_list_indicator:
  "(\<Sum>p\<leftarrow>ps. if P p then 1 else 0) = int (length (filter P ps))"
  by (induction ps) auto

lemma count_around_binary:
  assumes "length cs = 432" "binary cs"
  shows "count_around cs x y = int (live_neighbours cs x y)"
proof -
  have "count_around cs x y =
          (\<Sum>p\<leftarrow>around. if (\<lambda>(dx, dy). is_alive cs (x + dx) (y + dy)) p then 1 else 0)"
    unfolding count_around_def
    by (rule arg_cong[where f = sum_list]) (auto simp: cell_at_binary[OF assms])
  then show ?thesis
    by (simp only: sum_list_indicator live_neighbours_def)
qed

lemma binary_next_gen:
  assumes "length cs = 432" "binary cs"
  shows "binary (next_gen cs)"
proof -
  have "next_cell cs x y = 0 \<or> next_cell cs x y = 1" for x y
    using cell_at_binary[OF assms, of x y] by (simp add: next_cell_def stored_def)
  then show ?thesis by (auto simp: binary_def next_gen_def)
qed

lemma binary_fold_set: "binary cs \<Longrightarrow> binary (fold (\<lambda>n cs. cs[nat n := Alive]) ns cs)"
proof (induction ns arbitrary: cs)
  case Nil
  then show ?case by simp
next
  case (Cons n ns)
  have "set (cs[nat n := 1]) \<subseteq> insert 1 (set cs)" by (rule set_update_subset_insert)
  with Cons.prems have "binary (cs[nat n := 1])" by (auto simp: binary_def)
  then show ?case using Cons.IH by simp
qed

lemma grid_of_nth:
  assumes "inside x y"
  shows "grid_of A ! nat (x + y * 24) = (if (x, y) \<in> set A then Alive else Dead)"
proof -
  have "int (nat (x + y * 24) mod 24) = x" "int (nat (x + y * 24) div 24) = y"
    using assms by (auto simp: inside_def zmod_int zdiv_int)
  then show ?thesis using inside_index[OF assms]
    by (simp add: grid_of_def)
qed

lemma is_alive_grid_of: "is_alive (grid_of A) x y \<longleftrightarrow> inside x y \<and> (x, y) \<in> set A"
  by (auto simp: is_alive_def grid_of_nth split: if_splits)

lemma grid_of_length: "length (grid_of A) = 432"
  by (simp add: grid_of_def)

lemma grid_of_binary: "binary (grid_of A)"
  by (auto simp: grid_of_def binary_def)

lemma cell_at_grid_of:
  "cell_at (grid_of alive) x y = (if inside x y \<and> (x, y) \<in> set alive then 1 else 0)"
proof (cases "inside x y")
  case False then show ?thesis by (auto simp add: cell_at_def inside_def)
next
  case True
  have "int (nat (x + y * 24) mod 24) = x" "int (nat (x + y * 24) div 24) = y"
    using True by (auto simp: inside_def zmod_int zdiv_int)
  then show ?thesis using True inside_index[OF True]
    by (simp add: cell_at_def grid_of_def inside_def)
qed

lemma next_gen_grid_of:
  assumes "\<And>x y. inside x y \<Longrightarrow> next_cell (grid_of A) x y = (if (x, y) \<in> set B then Alive else Dead)"
  shows "next_gen (grid_of A) = grid_of B"
  unfolding next_gen_def grid_of_def[of B]
proof (rule map_cong[OF refl])
  fix k assume "k \<in> set [0..<432]"
  then have "inside (int (k mod 24)) (int (k div 24))"
    by (auto simp: inside_def)
  then show "next_cell (grid_of A) (int (k mod 24)) (int (k div 24)) =
     (if (int (k mod 24), int (k div 24)) \<in> set B then Alive else Dead)"
    by (rule assms)
qed

lemma blinker_cell1:
  assumes "inside x y"
  shows "next_cell (grid_of [(1, 0), (1, 1), (1, 2)]) x y =
           (if (x, y) \<in> set [(0, 1), (1, 1), (2, 1)] then Alive else Dead)"
proof -
  consider "x = 0" | "x = 1" | "x = 2" | "3 \<le> x"
    using assms unfolding inside_def by arith
  moreover consider "y = 0" | "y = 1" | "y = 2" | "y = 3" | "4 \<le> y"
    using assms unfolding inside_def by arith
  ultimately show ?thesis
    by cases (simp_all add: next_cell_def stored_def count_around_def around_def cell_at_grid_of inside_def)
qed

lemma blinker_cell2:
  assumes "inside x y"
  shows "next_cell (grid_of [(0, 1), (1, 1), (2, 1)]) x y =
           (if (x, y) \<in> set [(1, 0), (1, 1), (1, 2)] then Alive else Dead)"
proof -
  consider "x = 0" | "x = 1" | "x = 2" | "x = 3" | "4 \<le> x"
    using assms unfolding inside_def by arith
  moreover consider "y = 0" | "y = 1" | "y = 2" | "3 \<le> y"
    using assms unfolding inside_def by arith
  ultimately show ?thesis
    by cases (simp_all add: next_cell_def stored_def count_around_def around_def cell_at_grid_of inside_def)
qed

section \<open>The loop of gol_initialize\<close>

lemma gol_initialize_loop_eq:
  assumes "0 \<le> i" "i \<le> 216"
  shows "gol_initialize_loop rnd (ctx, c) i =
           (ctx\<lparr>cells := fold (\<lambda>n cs. cs[nat n := 1]) (map rnd [c..<c + nat (216 - i)]) (cells ctx)\<rparr>,
            c + nat (216 - i))"
  using assms
proof (induction rnd "(ctx, c)" i arbitrary: ctx c rule: gol_initialize_loop.induct)
  case (1 rnd ctx c i)
  show ?case
  proof (cases "i < 216")
    case False
    with "1.prems" have "i = 216" by simp
    then show ?thesis by (subst gol_initialize_loop.simps) simp
  next
    case True
    have n: "nat (216 - i) = Suc (nat (216 - (i + 1)))" using True "1.prems" by simp
    have "gol_initialize_loop rnd (ctx, c) i =
            gol_initialize_loop rnd (ctx\<lparr>cells := (cells ctx)[nat (rnd c) := 1]\<rparr>, Suc c) (i + 1)"
      using True by (subst gol_initialize_loop.simps) (simp add: Let_def)
    also have "\<dots> = (ctx\<lparr>cells := fold (\<lambda>n cs. cs[nat n := 1])
                          (map rnd [Suc c..<Suc c + nat (216 - (i + 1))]) ((cells ctx)[nat (rnd c) := 1])\<rparr>,
                      Suc c + nat (216 - (i + 1)))"
      using "1.hyps"[of "rnd c"] True "1.prems" by simp
    finally show ?thesis
      unfolding n by (simp add: upt_rec[of c])
  qed
qed

lemma gol_initialize_eq:
  "gol_initialize rnd (ctx, c) =
     (ctx\<lparr>cells := fold (\<lambda>n cs. cs[nat n := 1]) (draws rnd c) (replicate 432 0)\<rparr>, c + 216)"
  by (simp add: gol_initialize_def gol_initialize_loop_eq draws_def)

lemma fold_set_length: "length (fold (\<lambda>n cs. cs[nat n := v]) ns cs) = length cs"
  by (induction ns arbitrary: cs) auto

lemma fold_set_nth:
  assumes "k < length cs" "\<forall>n \<in> set ns. 0 \<le> n"
  shows "fold (\<lambda>n cs. cs[nat n := v]) ns cs ! k = (if int k \<in> set ns then v else cs ! k)"
  using assms
proof (induction ns arbitrary: cs)
  case Nil
  then show ?case by simp
next
  case (Cons n ns)
  then have "0 \<le> n" by simp
  then have "nat n = k \<longleftrightarrow> n = int k" by auto
  with Cons show ?case by (auto simp: nth_list_update)
qed

lemma draws_length: "length (draws rnd c) = 216"
  by (simp add: draws_def)

lemma initialized_nth:
  assumes "\<forall>n \<in> set (draws rnd c). 0 \<le> n \<and> n < 432" "k < 432"
  shows "cells (fst (gol_initialize rnd (ctx, c))) ! k =
           (if int k \<in> set (draws rnd c) then Alive else Dead)"
  using assms by (simp add: gol_initialize_eq fold_set_nth)

lemma initialized_length: "length (cells (fst (gol_initialize rnd (ctx, c)))) = 432"
  by (simp add: gol_initialize_eq fold_set_length)

lemma initialized_alive_count:
  assumes "\<forall>n \<in> set (draws rnd c). 0 \<le> n \<and> n < 432"
  shows "alive_count (cells (fst (gol_initialize rnd (ctx, c)))) = card (set (draws rnd c))"
proof -
  let ?cs = "cells (fst (gol_initialize rnd (ctx, c)))"
  let ?D = "set (draws rnd c)"
  have "alive_count ?cs = card {k. k < 432 \<and> ?cs ! k = Alive}"
    by (simp add: alive_count_def length_filter_conv_card initialized_length)
  also have "{k. k < 432 \<and> ?cs ! k = Alive} = {k. k < 432 \<and> int k \<in> ?D}"
    using initialized_nth[OF assms] by (auto split: if_splits)
  also have "\<dots> = nat ` ?D"
  proof (rule set_eqI)
    fix k
    show "k \<in> {k. k < 432 \<and> int k \<in> ?D} \<longleftrightarrow> k \<in> nat ` ?D"
    proof
      assume "k \<in> {k. k < 432 \<and> int k \<in> ?D}"
      then have "int k \<in> ?D" by simp
      then have "nat (int k) \<in> nat ` ?D" by (rule imageI)
      then show "k \<in> nat ` ?D" by simp
    next
      assume "k \<in> nat ` ?D"
      then obtain n where n: "n \<in> ?D" "k = nat n" by auto
      with assms have "0 \<le> n" "n < 432" by auto
      with n show "k \<in> {k. k < 432 \<and> int k \<in> ?D}" by simp
    qed
  qed
  also have "card (nat ` ?D) = card ?D"
  proof (rule card_image)
    show "inj_on nat ?D"
    proof (rule inj_onI)
      fix m n assume "m \<in> ?D" "n \<in> ?D" and e: "nat m = nat n"
      with assms have "0 \<le> m" "0 \<le> n" by auto
      with e show "m = n" by (simp add: eq_nat_nat_iff)
    qed
  qed
  finally show ?thesis .
qed

section \<open>The catch-up loop\<close>

text \<open>
  The loop runs \<open>(now - last_step) div 250\<close> times, the subtraction being the unsigned one.
\<close>

lemma unat_step_back:
  fixes now l :: "64 word"
  assumes "250 \<le> now - l"
  shows "unat (now - (l + 250)) = unat (now - l) - 250" and "250 \<le> unat (now - l)"
proof -
  have "now - (l + 250) = (now - l) - 250" by simp
  then have "unat (now - (l + 250)) = unat ((now - l) - 250)" by (simp only:)
  also have "\<dots> = unat (now - l) - unat (250 :: 64 word)" using assms by (rule unat_sub)
  finally show "unat (now - (l + 250)) = unat (now - l) - 250" by simp
  have "unat (250 :: 64 word) \<le> unat (now - l)" using assms by (simp only: word_le_nat_alt)
  then show "250 \<le> unat (now - l)" by simp
qed

lemma while_closed_form:
  "SDL_AppIterate_while now as =
     as\<lparr>gol_ctx := (gol_step ^^ (unat (now - last_step as) div 250)) (gol_ctx as),
        last_step := last_step as + 250 * of_nat (unat (now - last_step as) div 250)\<rparr>"
proof (induction now as rule: SDL_AppIterate_while.induct)
  case (1 now as)
  let ?d = "now - last_step as"
  show ?case
  proof (cases "250 \<le> ?d")
    case False
    then have "unat ?d < 250" by (simp add: word_le_nat_alt)
    then show ?thesis using False by (subst SDL_AppIterate_while.simps) simp
  next
    case True
    let ?as = "as\<lparr>gol_ctx := gol_step (gol_ctx as), last_step := last_step as + 250\<rparr>"
    have u: "250 \<le> unat ?d" using True by (rule unat_step_back(2))
    have d: "unat (now - last_step ?as) = unat ?d - 250"
      using unat_step_back(1)[OF True] by simp
    have n: "unat ?d div 250 = Suc ((unat ?d - 250) div 250)"
      using u by (simp add: le_div_geq)
    have "SDL_AppIterate_while now as = SDL_AppIterate_while now ?as"
      using True by (subst SDL_AppIterate_while.simps) simp
    also have "\<dots> = ?as\<lparr>gol_ctx := (gol_step ^^ ((unat ?d - 250) div 250)) (gol_ctx ?as),
        last_step := last_step ?as + 250 * of_nat ((unat ?d - 250) div 250)\<rparr>"
      using "1.IH"[OF True] unfolding d .
    finally show ?thesis
      unfolding n by (simp add: funpow_swap1 algebra_simps)
  qed
qed

lemma SDL_AppIterate_state: "fst (SDL_AppIterate now as) = SDL_AppIterate_while now as"
  by (simp add: SDL_AppIterate_def Let_def split: prod.splits)

lemma frame_last_step:
  assumes "last_step as \<le> now"
  shows "\<exists>k. unat (last_step (fst (SDL_AppIterate now as))) = unat (last_step as) + k * 250"
    and "last_step (fst (SDL_AppIterate now as)) \<le> now"
proof -
  let ?n = "unat (now - last_step as) div 250"
  have d: "unat (now - last_step as) = unat now - unat (last_step as)"
    using assms by (rule unat_sub)
  have le: "unat (last_step as) \<le> unat now" using assms by (simp add: word_le_nat_alt)
  have "250 * ?n \<le> unat now - unat (last_step as)" unfolding d by simp
  then have b: "unat (last_step as) + 250 * ?n \<le> unat now" using le by simp
  have l: "last_step (fst (SDL_AppIterate now as)) = last_step as + 250 * of_nat ?n"
    by (simp add: SDL_AppIterate_state while_closed_form)
  have "last_step as + 250 * of_nat ?n = (of_nat (unat (last_step as) + 250 * ?n) :: 64 word)"
    by simp
  then have u: "unat (last_step (fst (SDL_AppIterate now as))) = unat (last_step as) + 250 * ?n"
    unfolding l using le_unat_uoi[OF b] by (simp only:)
  then show "\<exists>k. unat (last_step (fst (SDL_AppIterate now as))) = unat (last_step as) + k * 250"
    by (intro exI[of _ ?n]) simp
  show "last_step (fst (SDL_AppIterate now as)) \<le> now"
    using u b by (simp add: word_le_nat_alt)
qed

lemma while_no_lag: "SDL_AppIterate_while (last_step as) as = as"
  by (subst SDL_AppIterate_while.simps) simp

section \<open>The drawing loops\<close>

lemma set_rect_xy_again: "set_rect_xy (set_rect_xy r a b) i j = set_rect_xy r i j"
  by (simp add: set_rect_xy_def)

lemma emit_Nil: "emit s [] = s"
  by (simp add: emit_def)

lemma emit_append: "emit (emit s ps) qs = emit s (ps @ qs)"
  by (cases "ps = []"; cases "qs = []") (simp_all add: emit_def set_rect_xy_again)

lemma SDL_AppIterate_j_emit:
  assumes "0 \<le> j"
  shows "SDL_AppIterate_j ctx i j s = emit s (filter (lit ctx) (map (Pair i) [j..17]))"
  using assms
proof (induction ctx i j s rule: SDL_AppIterate_j.induct)
  case (1 ctx i j r out)
  show ?case
  proof (cases "j < 18")
    case False
    then show ?thesis by (subst SDL_AppIterate_j.simps) (simp add: emit_Nil)
  next
    case True
    have up: "[j..17] = j # [j + 1..17]" using True by (simp add: upto_rec1)
    let ?s = "if cells ctx ! nat (i + j * 24) \<noteq> 0
              then (let r' = set_rect_xy r i j in (r', out @ [SDL_RenderFillRect r']))
              else (r, out)"
    have s: "?s = emit (r, out) (filter (lit ctx) [(i, j)])"
      by (simp add: emit_def lit_def Let_def)
    have "SDL_AppIterate_j ctx i j (r, out) = SDL_AppIterate_j ctx i (j + 1) ?s"
      using True by (subst SDL_AppIterate_j.simps) simp
    also have "\<dots> = emit ?s (filter (lit ctx) (map (Pair i) [j + 1..17]))"
      using "1.IH"[OF True] "1.prems" by simp
    finally show ?thesis
      unfolding s emit_append up by simp
  qed
qed

lemma SDL_AppIterate_i_emit:
  assumes "0 \<le> i"
  shows "SDL_AppIterate_i ctx i s = emit s (filter (lit ctx) (List.product [i..23] [0..17]))"
  using assms
proof (induction ctx i s rule: SDL_AppIterate_i.induct)
  case (1 ctx i s)
  show ?case
  proof (cases "i < 24")
    case False
    then show ?thesis by (subst SDL_AppIterate_i.simps) (simp add: emit_Nil)
  next
    case True
    have up: "[i..23] = i # [i + 1..23]" using True by (simp add: upto_rec1)
    have "SDL_AppIterate_i ctx i s = SDL_AppIterate_i ctx (i + 1) (SDL_AppIterate_j ctx i 0 s)"
      using True by (subst SDL_AppIterate_i.simps) simp
    also have "\<dots> = emit (SDL_AppIterate_j ctx i 0 s) (filter (lit ctx) (List.product [i + 1..23] [0..17]))"
      using "1.IH"[OF True] "1.prems" by simp
    finally show ?thesis
      unfolding up by (simp add: SDL_AppIterate_j_emit emit_append)
  qed
qed

lemma SDL_AppIterate_calls:
  "fst (snd (SDL_AppIterate now as)) =
     (let ctx = gol_ctx (SDL_AppIterate_while now as);
          r = \<lparr>rect_x = None, rect_y = None, rect_w = Some 23, rect_h = Some 23\<rparr>;
          ps = filter (lit ctx) scan_order
      in [SDL_SetRenderDrawColor 96 96 96 255, SDL_RenderClear, SDL_SetRenderDrawColor 255 255 0 255]
         @ map (\<lambda>p. SDL_RenderFillRect (set_rect_xy r (fst p) (snd p))) ps
         @ [SDL_RenderFillRect (if ps = [] then r else set_rect_xy r (fst (last ps)) (snd (last ps))),
            SDL_RenderPresent])"
  by (simp add: SDL_AppIterate_def Let_def SDL_AppIterate_i_emit emit_def scan_order_def split: prod.splits)

lemma scan_order_inside: "p \<in> set scan_order \<Longrightarrow> inside (fst p) (snd p)"
  by (auto simp: scan_order_def inside_def)

lemma set_scan_order: "set scan_order = {p. inside (fst p) (snd p)}"
  by (auto simp: scan_order_def inside_def)

lemma distinct_scan_order: "distinct scan_order"
  by (simp add: scan_order_def distinct_product)

lemma lit_grid_of:
  assumes "cells ctx = grid_of A" "inside (fst p) (snd p)"
  shows "lit ctx p \<longleftrightarrow> p \<in> set A"
proof -
  have "cell_at (grid_of A) (fst p) (snd p) = (if p \<in> set A then 1 else 0)"
    using assms(2) by (simp add: cell_at_grid_of)
  moreover have "cell_at (grid_of A) (fst p) (snd p) = uint (grid_of A ! nat (fst p + snd p * 24))"
    using assms(2) by (simp add: cell_at_def inside_def)
  ultimately show ?thesis
    using assms(1) by (auto simp: lit_def unsigned_eq_0_iff split: if_splits)
qed

lemma filter_lit_grid_of:
  assumes "cells ctx = grid_of A"
  shows "filter (lit ctx) scan_order = filter (\<lambda>p. p \<in> set A) scan_order"
  by (rule filter_cong[OF refl]) (simp add: lit_grid_of[OF assms] scan_order_inside)

lemma blinker_scan: "filter (\<lambda>p. p \<in> set [(1, 0), (1, 1), (1, 2)]) scan_order = [(1, 0), (1, 1), (1, 2)]"
  by (simp add: scan_order_def upto.simps[of 0] upto.simps[of 1])

lemma dead_scan: "filter (lit (gol_ctx as_dead)) scan_order = []"
proof -
  have "\<not> lit (gol_ctx as_dead) p" if "p \<in> set scan_order" for p
    using inside_index[OF scan_order_inside[OF that]] by (simp add: lit_def as_dead_def)
  then show ?thesis by (simp add: filter_empty_conv)
qed

lemma fill_rects_append: "fill_rects (xs @ ys) = fill_rects xs @ fill_rects ys"
  by (induction xs rule: fill_rects.induct) auto

lemma fill_rects_map: "fill_rects (map (\<lambda>p. SDL_RenderFillRect (f p)) ps) = map f ps"
  by (induction ps) auto

lemma lit_count:
  assumes "length (cells ctx) = 432"
  shows "length (filter (lit ctx) scan_order) = length (filter (\<lambda>c. c \<noteq> 0) (cells ctx))"
proof -
  let ?idx = "\<lambda>p :: int \<times> int. nat (fst p + snd p * 24)"
  let ?P = "{p. lit ctx p} \<inter> set scan_order"
  let ?K = "{k. k < length (cells ctx) \<and> cells ctx ! k \<noteq> 0}"
  have "bij_betw ?idx ?P ?K"
    unfolding bij_betw_def
  proof
    show "inj_on ?idx ?P"
      by (rule inj_onI) (auto simp: set_scan_order dest: index_inj)
    show "?idx ` ?P = ?K"
    proof (rule set_eqI)
      fix k
      show "k \<in> ?idx ` ?P \<longleftrightarrow> k \<in> ?K"
      proof
        assume "k \<in> ?idx ` ?P"
        then obtain p where p: "lit ctx p" "inside (fst p) (snd p)" "k = ?idx p"
          by (auto simp: set_scan_order)
        then show "k \<in> ?K"
          using inside_index[OF p(2)] assms by (simp add: lit_def)
      next
        assume "k \<in> ?K"
        then have k: "k < 432" "cells ctx ! k \<noteq> 0" using assms by simp_all
        let ?p = "(int (k mod 24), int (k div 24))"
        have "int (k mod 24) + int (k div 24) * 24 = int k" by arith
        then have i: "?idx ?p = k" by simp
        have "inside (fst ?p) (snd ?p)" using k(1) by (simp add: inside_def)
        moreover have "lit ctx ?p" using k(2) i by (simp add: lit_def)
        ultimately have "?p \<in> ?P" by (simp add: set_scan_order)
        then have "?idx ?p \<in> ?idx ` ?P" by (rule imageI)
        then show "k \<in> ?idx ` ?P" unfolding i .
      qed
    qed
  qed
  then have "card ?P = card ?K" by (rule bij_betw_same_card)
  moreover have "length (filter (lit ctx) scan_order) = card ?P"
    by (rule distinct_length_filter[OF distinct_scan_order])
  moreover have "length (filter (\<lambda>c. c \<noteq> 0) (cells ctx)) = card ?K"
    by (rule length_filter_conv_card)
  ultimately show ?thesis by simp
qed

lemma SDL_AppIterate_fill_count:
  assumes "length (cells (gol_ctx (fst (SDL_AppIterate now as)))) = 432"
  shows "length (fill_rects (fst (snd (SDL_AppIterate now as)))) =
           length (filter (\<lambda>c. c \<noteq> 0) (cells (gol_ctx (fst (SDL_AppIterate now as))))) + 1"
  using lit_count[OF assms]
  by (simp add: SDL_AppIterate_calls Let_def fill_rects_append fill_rects_map SDL_AppIterate_state)

section \<open>Start-up\<close>

lemma SDL_AppInit_properties_all:
  "SDL_AppInit_properties ok i \<longleftrightarrow> (\<forall>k. i \<le> k \<and> k < 4 \<longrightarrow> ok k)"
proof (induction ok i rule: SDL_AppInit_properties.induct)
  case (1 ok i)
  show ?case
  proof (cases "i < 4 \<and> ok i")
    case True
    then have "SDL_AppInit_properties ok i = SDL_AppInit_properties ok (i + 1)"
      by (subst SDL_AppInit_properties.simps) simp
    also have "\<dots> \<longleftrightarrow> (\<forall>k. i + 1 \<le> k \<and> k < 4 \<longrightarrow> ok k)"
      using "1.IH" True by simp
    also have "\<dots> \<longleftrightarrow> (\<forall>k. i \<le> k \<and> k < 4 \<longrightarrow> ok k)"
      using True by (metis Suc_eq_plus1 Suc_leI le_neq_implies_less le_add1 le_trans)
    finally show ?thesis .
  next
    case False
    then show ?thesis
      by (subst SDL_AppInit_properties.simps) auto
  qed
qed

lemma SDL_AppInit_last_step:
  assumes "SDL_AppInit rnd env c = ((Some as0, c'), SDL_APP_CONTINUE)"
  shows "last_step as0 = ticks env"
  using assms
  by (auto simp: SDL_AppInit_def Let_def split: if_splits prod.splits)

section \<open>The claims\<close>

text \<open>
  Claim C1.  On a grid of 432 cells that are each \<open>Dead\<close> or \<open>Alive\<close>, \<open>gol_step\<close> leaves at
  every position \<open>(x, y)\<close> of the grid the value the rule of Life gives: a live cell with 2 or
  3 live neighbours stays \<open>Alive\<close> and dies otherwise, a dead cell with exactly 3 live
  neighbours becomes \<open>Alive\<close> and stays \<open>Dead\<close> otherwise.  The cell and its neighbours are
  read in the grid before the step, whatever \<open>newCells\<close> held.
\<close>

theorem gol_step_life_rule:
  assumes "length (cells ctx) = 432" and "binary (cells ctx)" and "inside x y"
  shows "cells (gol_step ctx) ! nat (x + y * 24) =
           (if life_rule (cells ctx ! nat (x + y * 24) = Alive) (live_neighbours (cells ctx) x y)
            then Alive else Dead)"
proof -
  let ?cs = "cells ctx"
  have c: "cells ctx ! nat (x + y * 24) = 0 \<or> cells ctx ! nat (x + y * 24) = 1"
    using assms inside_index[OF assms(3)] by (auto simp: binary_def)
  have at: "word_of_int (cell_at ?cs x y) = ?cs ! nat (x + y * 24)"
    using assms(3) by (simp add: cell_at_def inside_def)
  have "cells (gol_step ctx) ! nat (x + y * 24) = next_cell ?cs x y"
    by (simp add: gol_step_cells[OF assms(1)] next_gen_nth[OF assms(3)])
  also have "\<dots> = (if life_rule (?cs ! nat (x + y * 24) = 1) (live_neighbours ?cs x y) then 1 else 0)"
    using c by (auto simp: next_cell_def stored_def at count_around_binary[OF assms(1,2)] life_rule_def)
  finally show ?thesis .
qed

theorem gol_step_life_rule_witness:
  "cells (gol_step ctx_blinker) ! 24 = Alive \<and> cells (gol_step ctx_blinker) ! 1 = Dead
   \<and> cells (gol_step ctx_blinker) ! 25 = Alive \<and> cells (gol_step ctx_blinker) ! 100 = Dead"
proof -
  have l: "length (cells ctx_blinker) = 432" by (simp add: ctx_blinker_def grid_of_length)
  have b: "binary (cells ctx_blinker)" by (simp add: ctx_blinker_def grid_of_binary)
  have i: "inside 0 1" "inside 1 0" "inside 1 1" "inside 4 4" by (simp_all add: inside_def)
  have a: "is_alive (cells ctx_blinker) x y \<longleftrightarrow> inside x y \<and> (x, y) \<in> set [(1, 0), (1, 1), (1, 2)]" for x y
    by (simp add: ctx_blinker_def is_alive_grid_of)
  have c: "cells ctx_blinker ! 24 = 0" "cells ctx_blinker ! 1 = 1" "cells ctx_blinker ! 25 = 1"
    "cells ctx_blinker ! 100 = 0"
    by (simp_all add: ctx_blinker_def grid_of_def)
  have n: "live_neighbours (cells ctx_blinker) 0 1 = 3" "live_neighbours (cells ctx_blinker) 1 0 = 1"
    "live_neighbours (cells ctx_blinker) 1 1 = 2" "live_neighbours (cells ctx_blinker) 4 4 = 0"
    by (simp_all add: live_neighbours_def around_def a inside_def)
  show ?thesis
    using gol_step_life_rule[OF l b i(1)] gol_step_life_rule[OF l b i(2)]
      gol_step_life_rule[OF l b i(3)] gol_step_life_rule[OF l b i(4)]
    by (simp add: c n life_rule_def)
qed

text \<open>
  Claim C2.  \<open>getAtPos\<close> returns the stored cell inside the grid and 0 at every other pair
  of integers, and the neighbour count of \<open>gol_step\<close> is the sum over the 8 adjacent
  positions in which a position off the grid counts 0 whatever the grid holds.  In the
  witness the cell \<open>(23, 0)\<close> has the live neighbours \<open>(22, 0)\<close> and \<open>(23, 1)\<close>; the live
  cell \<open>(0, 1)\<close>, which follows it in memory, is not counted.
\<close>

theorem getAtPos_no_wrap:
  "(inside x y \<longrightarrow> getAtPos ctx x y = uint (cells ctx ! nat (x + y * GAME_WIDTH)))
   \<and> (\<not> inside x y \<longrightarrow> getAtPos ctx x y = 0)
   \<and> neighbors ctx x y =
        (\<Sum>(dx, dy) \<leftarrow> around.
           if inside (x + dx) (y + dy) then uint (cells ctx ! nat ((x + dx) + (y + dy) * GAME_WIDTH)) else 0)"
proof -
  have "cell_at cs a b = (if inside a b then uint (cs ! nat (a + b * 24)) else 0)" for cs a b
    by (simp add: cell_at_def inside_def)
  then show ?thesis
    by (simp add: getAtPos_cell_at neighbors_count_around count_around_def)
qed

theorem getAtPos_no_wrap_witness:
  "getAtPos ctx_edge 0 1 = 1 \<and> getAtPos ctx_edge 24 0 = 0 \<and> getAtPos ctx_edge (-1) 1 = 0
   \<and> getAtPos ctx_edge 0 18 = 0 \<and> neighbors ctx_edge 23 0 = 2"
proof -
  have c: "cells ctx_edge ! 24 = 1" "cells ctx_edge ! 22 = 1" "cells ctx_edge ! 46 = 0"
    "cells ctx_edge ! 47 = 1"
    by (simp_all add: ctx_edge_def grid_of_def)
  have i: "inside 0 1" "\<not> inside 24 0" "\<not> inside (-1) 1" "\<not> inside 0 18"
    by (simp_all add: inside_def)
  have n: "neighbors ctx_edge 23 0 = 2"
    using getAtPos_no_wrap[of 23 0 ctx_edge]
    by (simp add: around_def c inside_def)
  show ?thesis
    using getAtPos_no_wrap[of 0 1 ctx_edge] getAtPos_no_wrap[of 24 0 ctx_edge]
      getAtPos_no_wrap[of "-1" 1 ctx_edge] getAtPos_no_wrap[of 0 18 ctx_edge] i n
    by (simp add: c)
qed

text \<open>
  Claim C3.  A frame whose clock value is \<open>last_step + 3 * 250\<close> runs \<open>gol_step\<close> three times
  and adds \<open>3 * 250\<close> to \<open>last_step\<close>.  In general a frame runs \<open>gol_step\<close> once and adds 250
  for every whole interval in \<open>now - last_step\<close>.
\<close>

theorem three_intervals_three_steps:
  assumes "now = last_step as + 3 * STEP_RATE_IN_MILLISECONDS"
  shows "fst (SDL_AppIterate now as) =
           as\<lparr>gol_ctx := gol_step (gol_step (gol_step (gol_ctx as))),
              last_step := last_step as + 3 * STEP_RATE_IN_MILLISECONDS\<rparr>
       \<and> (\<forall>t s. fst (SDL_AppIterate t s) =
             s\<lparr>gol_ctx := (gol_step ^^ (unat (t - last_step s) div 250)) (gol_ctx s),
               last_step := last_step s
                  + STEP_RATE_IN_MILLISECONDS * of_nat (unat (t - last_step s) div 250)\<rparr>)"
proof -
  have "now - last_step as = 750" using assms by simp
  then have "unat (now - last_step as) div 250 = 3" by simp
  then have "SDL_AppIterate_while now as =
           as\<lparr>gol_ctx := gol_step (gol_step (gol_step (gol_ctx as))),
              last_step := last_step as + 3 * 250\<rparr>"
    by (subst while_closed_form) (simp add: numeral_3_eq_3)
  then show ?thesis
    unfolding SDL_AppIterate_state using while_closed_form by blast
qed

theorem three_intervals_three_steps_witness:
  "fst (SDL_AppIterate 1750 as_blinker) =
     as_blinker\<lparr>gol_ctx := gol_step (gol_step (gol_step (gol_ctx as_blinker))), last_step := 1750\<rparr>"
proof -
  have h: "(1750 :: 64 word) = last_step as_blinker + 3 * STEP_RATE_IN_MILLISECONDS"
    by (simp add: as_blinker_def)
  have "last_step as_blinker + 3 * STEP_RATE_IN_MILLISECONDS = 1750"
    by (simp add: as_blinker_def)
  then show ?thesis
    using three_intervals_three_steps[OF h, THEN conjunct1] by simp
qed

text \<open>
  Claim C4 says that a frame makes one fill call for every \<open>Alive\<close> cell and no other.  The
  code makes one call more: after the loops it fills the rectangle \<open>r\<close> again.  On the
  blinker the calls of a frame are the clear, the three squares of the live cells, the
  square of \<open>(1, 2)\<close> a second time, and the present: 4 fills for 3 live cells.  On the
  grid without live cells the one fill call gets a rectangle whose origin was never set.
\<close>

theorem frame_render_extra_fill:
  "fst (snd (SDL_AppIterate 1000 as_blinker)) =
     [SDL_SetRenderDrawColor 96 96 96 255, SDL_RenderClear, SDL_SetRenderDrawColor 255 255 0 255,
      SDL_RenderFillRect (cell_rect 1 0), SDL_RenderFillRect (cell_rect 1 1),
      SDL_RenderFillRect (cell_rect 1 2), SDL_RenderFillRect (cell_rect 1 2),
      SDL_RenderPresent]
   \<and> alive_count (cells (gol_ctx (fst (SDL_AppIterate 1000 as_blinker)))) = 3
   \<and> length (fill_rects (fst (snd (SDL_AppIterate 1000 as_blinker)))) = 4
   \<and> fst (snd (SDL_AppIterate 1000 as_dead)) =
     [SDL_SetRenderDrawColor 96 96 96 255, SDL_RenderClear, SDL_SetRenderDrawColor 255 255 0 255,
      SDL_RenderFillRect \<lparr>rect_x = None, rect_y = None, rect_w = Some 23, rect_h = Some 23\<rparr>,
      SDL_RenderPresent]
   \<and> alive_count (cells (gol_ctx (fst (SDL_AppIterate 1000 as_dead)))) = 0"
proof -
  have wb: "SDL_AppIterate_while 1000 as_blinker = as_blinker"
    using while_no_lag[of as_blinker] by (simp add: as_blinker_def)
  have wd: "SDL_AppIterate_while 1000 as_dead = as_dead"
    using while_no_lag[of as_dead] by (simp add: as_dead_def)
  have cb: "cells (gol_ctx as_blinker) = grid_of [(1, 0), (1, 1), (1, 2)]"
    by (simp add: as_blinker_def ctx_blinker_def)
  have sb: "filter (lit (gol_ctx as_blinker)) scan_order = [(1, 0), (1, 1), (1, 2)]"
    by (simp only: filter_lit_grid_of[OF cb] blinker_scan)
  have callsb: "fst (snd (SDL_AppIterate 1000 as_blinker)) =
     [SDL_SetRenderDrawColor 96 96 96 255, SDL_RenderClear, SDL_SetRenderDrawColor 255 255 0 255,
      SDL_RenderFillRect (cell_rect 1 0), SDL_RenderFillRect (cell_rect 1 1),
      SDL_RenderFillRect (cell_rect 1 2), SDL_RenderFillRect (cell_rect 1 2),
      SDL_RenderPresent]"
    by (simp add: SDL_AppIterate_calls wb sb cell_rect_def set_rect_xy_def)
  have "alive_count (grid_of [(1, 0), (1, 1), (1, 2)]) =
          length (filter (\<lambda>c. c \<noteq> 0) (cells (gol_ctx as_blinker)))"
    unfolding alive_count_def cb using grid_of_binary[of "[(1, 0), (1, 1), (1, 2)]"]
    by (intro arg_cong[where f = length] filter_cong refl) (auto simp: binary_def)
  also have "\<dots> = length (filter (lit (gol_ctx as_blinker)) scan_order)"
    by (rule lit_count[symmetric]) (simp add: cb grid_of_length)
  finally have ab: "alive_count (grid_of [(1, 0), (1, 1), (1, 2)]) = 3"
    by (simp add: sb)
  have callsd: "fst (snd (SDL_AppIterate 1000 as_dead)) =
     [SDL_SetRenderDrawColor 96 96 96 255, SDL_RenderClear, SDL_SetRenderDrawColor 255 255 0 255,
      SDL_RenderFillRect \<lparr>rect_x = None, rect_y = None, rect_w = Some 23, rect_h = Some 23\<rparr>,
      SDL_RenderPresent]"
    by (simp add: SDL_AppIterate_calls wd dead_scan)
  have ad: "alive_count (cells (gol_ctx as_dead)) = 0"
    by (simp add: alive_count_def as_dead_def)
  show ?thesis
    unfolding callsb callsd by (simp add: SDL_AppIterate_state wb wd cb ab ad)
qed

text \<open>
  Claim C5.  A frame with \<open>last_step \<le> now < last_step + 250\<close> runs no step and leaves the
  state, \<open>last_step\<close> included, as it was.
\<close>

theorem short_frame_no_step:
  assumes "last_step as \<le> now" and "unat now < unat (last_step as) + unat STEP_RATE_IN_MILLISECONDS"
  shows "fst (SDL_AppIterate now as) = as"
proof -
  have "unat (now - last_step as) = unat now - unat (last_step as)"
    using assms(1) by (rule unat_sub)
  then have "unat (now - last_step as) < 250" using assms(2) by simp
  then have "unat (now - last_step as) div 250 = 0" by simp
  then show ?thesis
    by (simp add: SDL_AppIterate_state while_closed_form)
qed

theorem short_frame_no_step_witness:
  "fst (SDL_AppIterate 1249 as_blinker) = as_blinker"
proof -
  have h1: "last_step as_blinker \<le> 1249" by (simp add: as_blinker_def)
  have h2: "unat (1249 :: 64 word) < unat (last_step as_blinker) + unat STEP_RATE_IN_MILLISECONDS"
    by (simp add: as_blinker_def)
  show ?thesis using short_frame_no_step[OF h1 h2] .
qed

text \<open>
  Claim C6.  On the 24 by 18 grid whose live cells are \<open>(1, 0)\<close>, \<open>(1, 1)\<close>, \<open>(1, 2)\<close>, one step
  gives the grid whose live cells are \<open>(0, 1)\<close>, \<open>(1, 1)\<close>, \<open>(2, 1)\<close>, and a second step
  gives the first grid back.
\<close>

theorem blinker_period_two:
  "cells (gol_step \<lparr>cells = grid_of [(1, 0), (1, 1), (1, 2)], newCells = nc\<rparr>)
     = grid_of [(0, 1), (1, 1), (2, 1)]
   \<and> cells (gol_step (gol_step \<lparr>cells = grid_of [(1, 0), (1, 1), (1, 2)], newCells = nc\<rparr>))
     = grid_of [(1, 0), (1, 1), (1, 2)]"
proof -
  let ?v = "grid_of [(1, 0), (1, 1), (1, 2)]" and ?h = "grid_of [(0, 1), (1, 1), (2, 1)]"
  have 1: "next_gen ?v = ?h"
    by (rule next_gen_grid_of) (rule blinker_cell1)
  have 2: "next_gen ?h = ?v"
    by (rule next_gen_grid_of) (rule blinker_cell2)
  have s1: "cells (gol_step \<lparr>cells = ?v, newCells = nc\<rparr>) = ?h"
    using 1 by (simp add: gol_step_cells grid_of_length)
  then have "length (cells (gol_step \<lparr>cells = ?v, newCells = nc\<rparr>)) = 432"
    by (simp add: grid_of_length)
  then have "cells (gol_step (gol_step \<lparr>cells = ?v, newCells = nc\<rparr>)) = ?v"
    using 2 s1 by (simp add: gol_step_cells)
  with s1 show ?thesis by simp
qed

text \<open>
  Claim C7.  \<open>gol_initialize\<close> makes exactly 216 draws; the grid it leaves is the all-dead
  grid in which the drawn positions were set \<open>Alive\<close> one after the other, so a cell is
  \<open>Alive\<close> when its position was drawn and \<open>Dead\<close> otherwise.  The number of live cells is
  the number of different positions drawn: at most 216, and 216 exactly when no position
  was drawn twice.  The draws are any values the library may return.
\<close>

theorem gol_initialize_draws:
  assumes "\<forall>n \<in> set (draws rnd c). 0 \<le> n \<and> n < 432"
  shows "snd (gol_initialize rnd (ctx, c)) = c + 216
       \<and> length (draws rnd c) = 216
       \<and> cells (fst (gol_initialize rnd (ctx, c))) =
           fold (\<lambda>n cs. cs[nat n := Alive]) (draws rnd c) (replicate 432 Dead)
       \<and> newCells (fst (gol_initialize rnd (ctx, c))) = newCells ctx
       \<and> (\<forall>k<432. cells (fst (gol_initialize rnd (ctx, c))) ! k =
                     (if int k \<in> set (draws rnd c) then Alive else Dead))
       \<and> alive_count (cells (fst (gol_initialize rnd (ctx, c)))) = card (set (draws rnd c))
       \<and> alive_count (cells (fst (gol_initialize rnd (ctx, c)))) \<le> 216
       \<and> (alive_count (cells (fst (gol_initialize rnd (ctx, c)))) = 216 \<longleftrightarrow> distinct (draws rnd c))"
proof -
  have le: "card (set (draws rnd c)) \<le> 216"
    using card_length[of "draws rnd c"] by (simp add: draws_length)
  have eq: "card (set (draws rnd c)) = 216 \<longleftrightarrow> distinct (draws rnd c)"
    using card_distinct[of "draws rnd c"] distinct_card[of "draws rnd c"]
    by (auto simp: draws_length)
  show ?thesis
    using le eq initialized_nth[OF assms] initialized_alive_count[OF assms]
    by (simp add: gol_initialize_eq draws_length)
qed

theorem gol_initialize_draws_witness:
  "snd (gol_initialize rnd_same (ctx_any, 0)) = 216
   \<and> alive_count (cells (fst (gol_initialize rnd_same (ctx_any, 0)))) = 1
   \<and> cells (fst (gol_initialize rnd_same (ctx_any, 0))) ! 7 = Alive
   \<and> cells (fst (gol_initialize rnd_same (ctx_any, 0))) ! 8 = Dead"
proof -
  have d: "set (draws rnd_same 0) = {7}"
    by (simp add: draws_def rnd_same_def image_constant_conv)
  have h: "\<forall>n \<in> set (draws rnd_same 0). 0 \<le> n \<and> n < 432"
    by (simp add: d)
  note t = gol_initialize_draws[OF h, of ctx_any]
  from t have a: "snd (gol_initialize rnd_same (ctx_any, 0)) = 216"
    by simp
  from t have b: "\<forall>k<432. cells (fst (gol_initialize rnd_same (ctx_any, 0))) ! k =
                     (if int k \<in> set (draws rnd_same 0) then Alive else Dead)"
    by blast
  from t have c: "alive_count (cells (fst (gol_initialize rnd_same (ctx_any, 0)))) =
                     card (set (draws rnd_same 0))"
    by blast
  show ?thesis
    using a b c by (simp add: d)
qed

text \<open>
  Claim C8.  Over frames with clock values that never decrease and are not below the first
  \<open>last_step\<close>, \<open>last_step\<close> is its first value plus a multiple of 250 (as numbers, without
  wrap-around).  The event callback does not change \<open>last_step\<close>, and the first value is
  the clock value that \<open>SDL_AppInit\<close> read.
\<close>

theorem last_step_multiples:
  assumes "sorted nows" and "\<forall>n \<in> set nows. last_step as \<le> n"
  shows "(\<exists>k. unat (last_step (frames nows as)) = unat (last_step as) + k * unat STEP_RATE_IN_MILLISECONDS)
       \<and> last_step (fst (fst (SDL_AppEvent rnd (as, c) ev))) = last_step as
       \<and> (SDL_AppInit rnd env c0 = ((Some as, c1), SDL_APP_CONTINUE) \<longrightarrow> last_step as = ticks env)"
proof -
  have "\<exists>k. unat (last_step (frames nows as)) = unat (last_step as) + k * 250"
    using assms
  proof (induction nows arbitrary: as)
    case Nil
    then show ?case by simp
  next
    case (Cons now nows)
    let ?as = "fst (SDL_AppIterate now as)"
    have le: "last_step as \<le> now" using Cons.prems(2) by simp
    obtain k where k: "unat (last_step ?as) = unat (last_step as) + k * 250"
      using frame_last_step(1)[OF le] by blast
    have "last_step ?as \<le> now" using le by (rule frame_last_step(2))
    moreover have "\<forall>n \<in> set nows. now \<le> n" using Cons.prems(1) by simp
    ultimately have "\<forall>n \<in> set nows. last_step ?as \<le> n" by auto
    moreover have "sorted nows" using Cons.prems(1) by simp
    ultimately obtain k' where "unat (last_step (frames nows ?as)) = unat (last_step ?as) + k' * 250"
      using Cons.IH by blast
    with k have "unat (last_step (frames (now # nows) as)) = unat (last_step as) + (k + k') * 250"
      by (simp add: algebra_simps)
    then show ?case by blast
  qed
  moreover have "last_step (fst (fst (SDL_AppEvent rnd (as, c) ev))) = last_step as"
  proof (cases ev)
    case (SDL_EVENT_KEY_DOWN sc)
    then show ?thesis by (cases sc) (simp_all split: prod.splits)
  qed simp_all
  moreover have "last_step as = ticks env"
    if "SDL_AppInit rnd env c0 = ((Some as, c1), SDL_APP_CONTINUE)"
    using that by (rule SDL_AppInit_last_step)
  ultimately show ?thesis by simp
qed

theorem last_step_multiples_witness:
  "(\<exists>k. unat (last_step (frames [1100, 1600, 1600, 2300] as_started)) = 1000 + k * 250)
   \<and> last_step (fst (fst (SDL_AppEvent rnd_same (as_started, 216) (SDL_EVENT_KEY_DOWN SDL_SCANCODE_R))))
       = 1000
   \<and> SDL_AppInit rnd_same env_ok 0 = ((Some as_started, 216), SDL_APP_CONTINUE)
   \<and> last_step as_started = ticks env_ok"
proof -
  have h1: "sorted [1100, 1600, 1600, 2300 :: 64 word]" by simp
  have h2: "\<forall>n \<in> set [1100, 1600, 1600, 2300 :: 64 word]. last_step as_started \<le> n"
    by (simp add: as_started_def)
  have l: "last_step as_started = 1000" by (simp add: as_started_def)
  have i: "SDL_AppInit rnd_same env_ok 0 = ((Some as_started, 216), SDL_APP_CONTINUE)"
    by (simp add: SDL_AppInit_def SDL_AppInit_properties_all env_ok_def as_started_def
        gol_initialize_eq)
  show ?thesis
    using last_step_multiples[OF h1 h2, of rnd_same 216 "SDL_EVENT_KEY_DOWN SDL_SCANCODE_R" env_ok 0 216] i
    unfolding l by simp
qed

text \<open>
  Claim C9.  The event callback asks for the exit (\<open>SDL_APP_SUCCESS\<close>) exactly on the quit
  event and on a key press of Escape or Q, and returns \<open>SDL_APP_CONTINUE\<close> otherwise.  A key
  press of R runs \<open>gol_initialize\<close> on the grid; every other event leaves the state as it
  was.
\<close>

theorem event_handling:
  "(snd (SDL_AppEvent rnd (as, c) ev) = SDL_APP_SUCCESS \<longleftrightarrow>
      ev = SDL_EVENT_QUIT \<or> ev = SDL_EVENT_KEY_DOWN SDL_SCANCODE_ESCAPE
      \<or> ev = SDL_EVENT_KEY_DOWN SDL_SCANCODE_Q)
   \<and> (snd (SDL_AppEvent rnd (as, c) ev) \<noteq> SDL_APP_SUCCESS \<longrightarrow>
        snd (SDL_AppEvent rnd (as, c) ev) = SDL_APP_CONTINUE)
   \<and> (ev = SDL_EVENT_KEY_DOWN SDL_SCANCODE_R \<longrightarrow>
        SDL_AppEvent rnd (as, c) ev =
          ((as\<lparr>gol_ctx := fst (gol_initialize rnd (gol_ctx as, c))\<rparr>,
            snd (gol_initialize rnd (gol_ctx as, c))), SDL_APP_CONTINUE))
   \<and> (ev \<noteq> SDL_EVENT_KEY_DOWN SDL_SCANCODE_R \<longrightarrow> fst (SDL_AppEvent rnd (as, c) ev) = (as, c))"
proof (cases ev)
  case (SDL_EVENT_KEY_DOWN sc)
  then show ?thesis by (cases sc) (simp_all split: prod.splits)
qed simp_all

theorem event_handling_witness:
  "snd (SDL_AppEvent rnd_same (as_blinker, 0) (SDL_EVENT_KEY_DOWN SDL_SCANCODE_Q)) = SDL_APP_SUCCESS
   \<and> fst (SDL_AppEvent rnd_same (as_blinker, 0) (SDL_EVENT_KEY_DOWN SDL_SCANCODE_Q)) = (as_blinker, 0)
   \<and> SDL_AppEvent rnd_same (as_blinker, 0) (SDL_EVENT_KEY_DOWN SDL_SCANCODE_R) =
        ((as_blinker\<lparr>gol_ctx := fst (gol_initialize rnd_same (gol_ctx as_blinker, 0))\<rparr>,
          snd (gol_initialize rnd_same (gol_ctx as_blinker, 0))), SDL_APP_CONTINUE)
   \<and> SDL_AppEvent rnd_same (as_blinker, 0) (SDL_EVENT_OTHER 1024) = ((as_blinker, 0), SDL_APP_CONTINUE)"
  using event_handling[of rnd_same as_blinker 0 "SDL_EVENT_KEY_DOWN SDL_SCANCODE_Q"]
        event_handling[of rnd_same as_blinker 0 "SDL_EVENT_KEY_DOWN SDL_SCANCODE_R"]
        event_handling[of rnd_same as_blinker 0 "SDL_EVENT_OTHER 1024"]
  by (simp add: prod_eq_iff)

text \<open>
  Claim C10.  After \<open>gol_initialize\<close> every cell is 0 or 1.  \<open>gol_step\<close> keeps that: on a grid
  of such cells \<open>getAtPos\<close> returns 0 or 1, the neighbour count lies between 0 and 8, and the
  grid after the step has such cells again.  Every byte that \<open>gol_step\<close> leaves in
  \<open>newCells\<close> is 0, 1 or the cell of the same position.
\<close>

theorem binary_cells_invariant:
  "((\<forall>n \<in> set (draws rnd c). 0 \<le> n \<and> n < 432) \<longrightarrow>
       length (cells (fst (gol_initialize rnd (ctx0, c)))) = 432
     \<and> binary (cells (fst (gol_initialize rnd (ctx0, c)))))
   \<and> (length (cells ctx) = 432 \<and> binary (cells ctx) \<longrightarrow>
       length (cells (gol_step ctx)) = 432
     \<and> binary (cells (gol_step ctx))
     \<and> (getAtPos ctx x y = 0 \<or> getAtPos ctx x y = 1)
     \<and> 0 \<le> neighbors ctx x y \<and> neighbors ctx x y \<le> 8)
   \<and> (\<forall>k<432. newCells (gol_step ctx) ! k = 0 \<or> newCells (gol_step ctx) ! k = 1
                \<or> newCells (gol_step ctx) ! k = cells ctx ! k)"
proof (intro conjI impI allI)
  show "length (cells (fst (gol_initialize rnd (ctx0, c)))) = 432"
    by (rule initialized_length)
  have "binary (replicate 432 0)" by (simp add: binary_def)
  then show "binary (cells (fst (gol_initialize rnd (ctx0, c))))"
    using binary_fold_set by (simp add: gol_initialize_eq)
next
  assume a: "length (cells ctx) = 432 \<and> binary (cells ctx)"
  then have l: "length (cells ctx) = 432" and b: "binary (cells ctx)" by simp_all
  show "length (cells (gol_step ctx)) = 432"
    by (simp add: gol_step_cells[OF l] next_gen_def)
  show "binary (cells (gol_step ctx))"
    by (simp add: gol_step_cells[OF l] binary_next_gen[OF l b])
  show "getAtPos ctx x y = 0 \<or> getAtPos ctx x y = 1"
    by (simp add: getAtPos_cell_at cell_at_binary[OF l b])
  have "live_neighbours (cells ctx) x y \<le> length around"
    unfolding live_neighbours_def by (rule length_filter_le)
  then have "live_neighbours (cells ctx) x y \<le> 8" by (simp add: around_def)
  then show "0 \<le> neighbors ctx x y" "neighbors ctx x y \<le> 8"
    by (simp_all add: neighbors_count_around count_around_binary[OF l b])
next
  fix k :: nat assume k: "k < 432"
  have "int (k mod 24) + int (k div 24) * 24 = int k" by arith
  then have idx: "nat (int (k mod 24) + int (k div 24) * 24) = k"
    by (simp only: nat_int)
  have "k div 24 < 18" using k by simp
  then have "word_of_int (cell_at (cells ctx) (int (k mod 24)) (int (k div 24))) = cells ctx ! k"
    by (simp add: cell_at_def idx)
  then show "newCells (gol_step ctx) ! k = 0 \<or> newCells (gol_step ctx) ! k = 1
                \<or> newCells (gol_step ctx) ! k = cells ctx ! k"
    using k by (simp add: gol_step_newCells next_gen_def next_cell_def stored_def)
qed

theorem binary_cells_invariant_witness:
  "length (cells (fst (gol_initialize rnd_same (ctx_any, 0)))) = 432
   \<and> binary (cells (fst (gol_initialize rnd_same (ctx_any, 0))))
   \<and> binary (cells (gol_step ctx_blinker))
   \<and> (getAtPos ctx_blinker 1 1 = 0 \<or> getAtPos ctx_blinker 1 1 = 1)
   \<and> 0 \<le> neighbors ctx_blinker 1 1 \<and> neighbors ctx_blinker 1 1 \<le> 8"
proof -
  have d: "set (draws rnd_same 0) = {7}"
    by (simp add: draws_def rnd_same_def image_constant_conv)
  have h: "\<forall>n \<in> set (draws rnd_same 0). 0 \<le> n \<and> n < 432"
    by (simp add: d)
  have g: "length (cells ctx_blinker) = 432 \<and> binary (cells ctx_blinker)"
    by (simp add: ctx_blinker_def grid_of_length grid_of_binary)
  show ?thesis
    using binary_cells_invariant[of rnd_same 0 ctx_any ctx_blinker 1 1] h g by blast
qed

end
